theory Spec2Isabelle
  imports Main "HOL-Library.AList" "HOL-Library.Sublist"
begin

section \<open>The crawl engine of main.py\<close>

text \<open>
  The class \<open>WebCrawler\<close> of \<open>main.py\<close> owns a dictionary \<open>index\<close> (URL to page text) and a
  set \<open>visited\<close>. Its method \<open>crawl\<close> talks to three library functions that are not part of
  the repository: \<open>requests.get\<close>, the \<open>BeautifulSoup\<close> parser and \<open>urllib.parse.urljoin\<close>.
  They are parameters of the model, collected in the record \<open>world\<close>.

  Strings are Isabelle strings. Python's \<open>b.startswith(a)\<close> is \<open>prefix a b\<close> and
  \<open>a in b\<close> on strings is \<open>sublist a b\<close>. \<open>str.lower\<close> is a parameter of \<open>search\<close>.
\<close>

subsection \<open>Data\<close>

type_synonym url = string

text \<open>
  What the code reads from a parsed page: \<open>soup.get_text()\<close>, and for every element of
  \<open>soup.find_all('a')\<close>, in document order, the value of \<open>link.get('href')\<close>, which is
  \<open>None\<close> when the anchor has no such attribute.
\<close>

record page =
  page_text :: string
  page_hrefs :: "string option list"

text \<open>
  \<open>get W url\<close> stands for the statements between \<open>try\<close> and the assignment to
  \<open>self.index[url]\<close>: \<open>response = requests.get(url)\<close>,
  \<open>soup = BeautifulSoup(response.text, 'html.parser')\<close> and the call \<open>soup.get_text()\<close>. It is
  \<open>Inl msg\<close> when one of them raises an exception \<open>e\<close> with \<open>str(e) = msg\<close>, and \<open>Inr pg\<close>
  otherwise. \<open>soup.find_all\<close> and \<open>link.get\<close> are taken to raise nothing. The web is static
  during a session: the answer depends on the URL only.

  \<open>urljoin W base href\<close> stands for \<open>urljoin(base, href)\<close>. The library function raises
  \<open>ValueError\<close> on some arguments (for instance \<open>urljoin("https://example.com", "http://[")\<close>
  raises \<open>ValueError("Invalid IPv6 URL")\<close>), hence the sum type: \<open>Inl msg\<close> is the raise.
\<close>

record world =
  get :: "url \<Rightarrow> string + page"
  urljoin :: "string \<Rightarrow> string \<Rightarrow> string + string"

text \<open>
  The state of a session. \<open>index\<close> is a Python dictionary: an association list in insertion
  order. \<open>visited\<close> is the set. \<open>stdout\<close> holds the lines printed so far. \<open>requests\<close> is not
  a variable of the program: it logs, in order, the URLs that \<open>requests.get\<close> was called with.
\<close>

record session =
  index :: "(url \<times> string) list"
  visited :: "url set"
  stdout :: "string list"
  requests :: "url list"

text \<open>\<open>WebCrawler()\<close>, on a fresh standard output.\<close>

definition init :: session where
  "init = \<lparr>index = [], visited = {}, stdout = [], requests = []\<rparr>"

subsection \<open>crawl\<close>

text \<open>The expression \<open>base_url or url\<close>: \<open>None\<close> and the empty string are both falsy.\<close>

definition base_or :: "string option \<Rightarrow> url \<Rightarrow> string" where
  "base_or base_url url =
     (case base_url of None \<Rightarrow> url | Some b \<Rightarrow> if b = [] then url else b)"

text \<open>The f-string \<open>f"Error crawling {url}: {e}"\<close>.\<close>

definition error_line :: "url \<Rightarrow> string \<Rightarrow> string" where
  "error_line url e = ''Error crawling '' @ url @ '': '' @ e"

definition print :: "string \<Rightarrow> session \<Rightarrow> session" where
  "print line st = st\<lparr>stdout := stdout st @ [line]\<rparr>"

text \<open>
  The three assignments of \<open>crawl\<close>: \<open>self.visited.add(url)\<close>, the call of
  \<open>requests.get(url)\<close> as the log sees it, and \<open>self.index[url] = soup.get_text()\<close>.
  Assigning to a key of a Python dictionary replaces the value where the key is, or appends
  the key at the end: that is \<open>AList.update\<close>.
\<close>

definition visited_add :: "url \<Rightarrow> session \<Rightarrow> session" where
  "visited_add url st = st\<lparr>visited := insert url (visited st)\<rparr>"

definition log_request :: "url \<Rightarrow> session \<Rightarrow> session" where
  "log_request url st = st\<lparr>requests := requests st @ [url]\<rparr>"

definition index_set :: "url \<Rightarrow> string \<Rightarrow> session \<Rightarrow> session" where
  "index_set url content st = st\<lparr>index := AList.update url content (index st)\<rparr>"

text \<open>
  \<open>crawl\<close> is recursive and need not terminate (the web may be infinite), so the model takes
  fuel: the number of nested calls of \<open>crawl\<close> that are allowed. \<open>None\<close> means that the fuel
  did not suffice. The interpreter's own recursion limit is not modelled.

  \<open>crawl_links\<close> is the \<open>for\<close> loop over \<open>soup.find_all('a')\<close>. The loop sits inside the
  \<open>try\<close> block, so an exception raised by \<open>urljoin\<close> leaves it: the result is the state
  reached so far together with the message of the exception, if there was one. The
  recursive calls of \<open>crawl\<close> raise nothing, since \<open>crawl\<close> catches every \<open>Exception\<close>.
\<close>

fun crawl :: "nat \<Rightarrow> world \<Rightarrow> session \<Rightarrow> url \<Rightarrow> string option \<Rightarrow> session option"
and crawl_links :: "nat \<Rightarrow> world \<Rightarrow> session \<Rightarrow> url \<Rightarrow> string option \<Rightarrow> string option list
      \<Rightarrow> (session \<times> string option) option"
where
  "crawl 0 W st url base_url = None"
| "crawl (Suc n) W st url base_url =
     (if url \<in> visited st then Some st
      else
        let st1 = visited_add url st
        in case get W url of
             Inl e \<Rightarrow> Some (print (error_line url e) (log_request url st1))
           | Inr pg \<Rightarrow>
               (let st2 = index_set url (page_text pg) (log_request url st1)
                in case crawl_links n W st2 url base_url (page_hrefs pg) of
                     None \<Rightarrow> None
                   | Some (st3, None) \<Rightarrow> Some st3
                   | Some (st3, Some e) \<Rightarrow> Some (print (error_line url e) st3)))"
| "crawl_links n W st url base_url [] = Some (st, None)"
| "crawl_links n W st url base_url (link # links) =
     (case link of
        None \<Rightarrow> crawl_links n W st url base_url links
      | Some href \<Rightarrow>
          if href = [] then crawl_links n W st url base_url links
          else
            (case urljoin W (base_or base_url url) href of
               Inl e \<Rightarrow> Some (st, Some e)
             | Inr href' \<Rightarrow>
                 if prefix (base_or base_url url) href' then
                   (case crawl n W st href' (Some (base_or base_url url)) of
                      None \<Rightarrow> None
                    | Some st' \<Rightarrow> crawl_links n W st' url base_url links)
                 else crawl_links n W st url base_url links))"

subsection \<open>search and print_results\<close>

text \<open>
  \<open>search\<close> walks \<open>self.index.items()\<close> in the order of the dictionary and appends the
  matching keys to \<open>results\<close>. \<open>lower\<close> stands for Python's \<open>str.lower\<close>. The method
  receives \<open>self\<close>, so the model returns the state next to the result.
\<close>

fun search_loop :: "(string \<Rightarrow> string) \<Rightarrow> string \<Rightarrow> (url \<times> string) list \<Rightarrow> url list \<Rightarrow> url list" where
  "search_loop lower keyword [] results = results"
| "search_loop lower keyword ((url, content) # items) results =
     search_loop lower keyword items
       (if sublist (lower keyword) (lower content) then results @ [url] else results)"

definition search :: "(string \<Rightarrow> string) \<Rightarrow> session \<Rightarrow> string \<Rightarrow> url list \<times> session" where
  "search lower st keyword = (search_loop lower keyword (index st) [], st)"

fun print_each :: "url list \<Rightarrow> session \<Rightarrow> session" where
  "print_each [] st = st"
| "print_each (result # results) st = print_each results (print (''- '' @ result) st)"

definition print_results :: "url list \<Rightarrow> session \<Rightarrow> session" where
  "print_results results st =
     (if results \<noteq> [] then print_each results (print ''Search results:'' st)
      else print ''No results found.'' st)"

text \<open>
  An instance of \<open>lower\<close> for examples: \<open>str.lower\<close> on ASCII text.
\<close>

definition lower_char :: "char \<Rightarrow> char" where
  "lower_char c =
     (let k = (of_char c :: nat) in if 65 \<le> k \<and> k \<le> 90 then char_of (k + 32) else c)"

definition ascii_lower :: "string \<Rightarrow> string" where
  "ascii_lower s = map lower_char s"

subsection \<open>Example worlds\<close>

text \<open>
  On the base \<open>https://example.com\<close>, \<open>example_urljoin\<close> agrees with the library's
  \<open>urljoin\<close> for the references used in the examples: an absolute \<open>https\<close> URL is returned
  as it is, a path that starts with a slash is appended to the base, and \<open>http://[\<close> raises.
\<close>

definition example_urljoin :: "string \<Rightarrow> string \<Rightarrow> string + string" where
  "example_urljoin base href =
     (if href = ''http://['' then Inl ''Invalid IPv6 URL''
      else if prefix ''https://'' href then Inr href
      else Inr (''https://example.com'' @ href))"

text \<open>Every request fails, as under the mock of \<open>test_crawl_error\<close>.\<close>

definition offline :: world where
  "offline = \<lparr>get = (\<lambda>url. Inl ''Test Error''), urljoin = example_urljoin\<rparr>"

text \<open>
  A small site. The start page links to \<open>/about\<close> and \<open>/team\<close>, to an anchor without
  \<open>href\<close>, to an empty \<open>href\<close>, to another site and to a host whose name merely begins with
  the name of the site. \<open>/about\<close> links to \<open>/team\<close> and back to the start page, \<open>/team\<close>
  links to \<open>/missing\<close>, whose request fails.
\<close>

definition site :: world where
  "site = \<lparr>get = (\<lambda>url.
       if url = ''https://example.com'' then
         Inr \<lparr>page_text = ''Welcome!'',
              page_hrefs = [Some ''/about'', None, Some [], Some ''https://www.external.com'',
                            Some ''https://example.com.evil.com'', Some ''/team'']\<rparr>
       else if url = ''https://example.com/about'' then
         Inr \<lparr>page_text = ''About Us'',
              page_hrefs = [Some ''/team'', Some ''https://example.com'']\<rparr>
       else if url = ''https://example.com/team'' then
         Inr \<lparr>page_text = ''The Team'', page_hrefs = [Some ''/missing'']\<rparr>
       else if url = ''https://example.com.evil.com'' then
         Inr \<lparr>page_text = ''Gotcha'', page_hrefs = []\<rparr>
       else Inl ''404 Not Found''),
     urljoin = example_urljoin\<rparr>"

definition site_crawled :: session where
  "site_crawled =
     \<lparr>index = [(''https://example.com'', ''Welcome!''),
               (''https://example.com/about'', ''About Us''),
               (''https://example.com/team'', ''The Team''),
               (''https://example.com.evil.com'', ''Gotcha'')],
      visited = {''https://example.com'', ''https://example.com/about'',
                 ''https://example.com/team'', ''https://example.com/missing'',
                 ''https://example.com.evil.com''},
      stdout = [''Error crawling https://example.com/missing: 404 Not Found''],
      requests = [''https://example.com'', ''https://example.com/about'',
                  ''https://example.com/team'', ''https://example.com/missing'',
                  ''https://example.com.evil.com'']\<rparr>"

text \<open>
  The start page has a link that \<open>urljoin\<close> rejects, followed by a link into the site;
  every other request fails.
\<close>

definition badlink :: world where
  "badlink = \<lparr>get = (\<lambda>url.
       if url = ''https://example.com'' then
         Inr \<lparr>page_text = ''Welcome!'', page_hrefs = [Some ''http://['', Some ''/about'']\<rparr>
       else Inl ''404 Not Found''),
     urljoin = example_urljoin\<rparr>"

definition badlink_crawled :: session where
  "badlink_crawled =
     \<lparr>index = [(''https://example.com'', ''Welcome!'')],
      visited = {''https://example.com''},
      stdout = [''Error crawling https://example.com: Invalid IPv6 URL''],
      requests = [''https://example.com'']\<rparr>"

text \<open>Two pages that link to each other.\<close>

definition two_pages :: world where
  "two_pages = \<lparr>get = (\<lambda>url.
       if url = ''https://example.com'' then
         Inr \<lparr>page_text = ''Welcome!'', page_hrefs = [Some ''/about'']\<rparr>
       else if url = ''https://example.com/about'' then
         Inr \<lparr>page_text = ''About Us'', page_hrefs = [Some ''https://example.com'']\<rparr>
       else Inl ''404 Not Found''),
     urljoin = example_urljoin\<rparr>"

definition two_pages_crawled :: session where
  "two_pages_crawled =
     \<lparr>index = [(''https://example.com'', ''Welcome!''),
               (''https://example.com/about'', ''About Us'')],
      visited = {''https://example.com'', ''https://example.com/about''},
      stdout = [],
      requests = [''https://example.com'', ''https://example.com/about'']\<rparr>"

text \<open>
  The start page links to \<open>/missing\<close>, whose request fails, then has an anchor without
  \<open>href\<close> and a link to \<open>/about\<close>, a page without links. The three states are the one
  in which the loop over the links of the start page begins, the one after the failed
  request, and the one in which the crawl ends.
\<close>

definition flaky :: world where
  "flaky = \<lparr>get = (\<lambda>url.
       if url = ''https://example.com'' then
         Inr \<lparr>page_text = ''Welcome!'',
              page_hrefs = [Some ''/missing'', None, Some ''/about'']\<rparr>
       else if url = ''https://example.com/about'' then
         Inr \<lparr>page_text = ''About Us'', page_hrefs = []\<rparr>
       else Inl ''404 Not Found''),
     urljoin = example_urljoin\<rparr>"

definition flaky_fetched :: session where
  "flaky_fetched =
     \<lparr>index = [(''https://example.com'', ''Welcome!'')],
      visited = {''https://example.com''},
      stdout = [],
      requests = [''https://example.com'']\<rparr>"

definition flaky_failed :: session where
  "flaky_failed =
     \<lparr>index = [(''https://example.com'', ''Welcome!'')],
      visited = {''https://example.com/missing'', ''https://example.com''},
      stdout = [''Error crawling https://example.com/missing: 404 Not Found''],
      requests = [''https://example.com'', ''https://example.com/missing'']\<rparr>"

definition flaky_crawled :: session where
  "flaky_crawled =
     \<lparr>index = [(''https://example.com'', ''Welcome!''),
               (''https://example.com/about'', ''About Us'')],
      visited = {''https://example.com/about'', ''https://example.com/missing'',
                 ''https://example.com''},
      stdout = [''Error crawling https://example.com/missing: 404 Not Found''],
      requests = [''https://example.com'', ''https://example.com/missing'',
                  ''https://example.com/about'']\<rparr>"

text \<open>
  A crawler whose index was filled by hand, as the tests of \<open>search\<close> do:
  \<open>{"a": "Hello World", "b": "hello there"}\<close>.
\<close>

definition greetings :: session where
  "greetings = \<lparr>index = [(''a'', ''Hello World''), (''b'', ''hello there'')],
                 visited = {}, stdout = [], requests = []\<rparr>"

subsection \<open>Notions used by the properties\<close>

text \<open>
  Index completeness, in terms of the log of requests: every URL that was requested is in
  \<open>visited\<close>; it has its page text in the index when the request gave a page and no entry
  when the request failed; and the index has no other keys.
\<close>

definition index_complete :: "world \<Rightarrow> session \<Rightarrow> bool" where
  "index_complete W st \<longleftrightarrow>
     (\<forall>u \<in> set (requests st). u \<in> visited st \<and>
        (case get W u of
           Inr pg \<Rightarrow> map_of (index st) u = Some (page_text pg)
         | Inl e \<Rightarrow> map_of (index st) u = None)) \<and>
     (\<forall>u. map_of (index st) u \<noteq> None \<longrightarrow>
        u \<in> set (requests st) \<and> (\<exists>pg. get W u = Inr pg))"

text \<open>
  The URLs that the loop over \<open>links\<close> calls \<open>crawl\<close> with, under the scope string \<open>s\<close>,
  as far as the loop gets: it ends at the first link that \<open>urljoin\<close> rejects.
\<close>

fun link_targets :: "world \<Rightarrow> string \<Rightarrow> string option list \<Rightarrow> url list" where
  "link_targets W s [] = []"
| "link_targets W s (None # links) = link_targets W s links"
| "link_targets W s (Some href # links) =
     (if href = [] then link_targets W s links
      else case urljoin W s href of
             Inl e \<Rightarrow> []
           | Inr t \<Rightarrow> if prefix s t then t # link_targets W s links
                      else link_targets W s links)"

text \<open>
  The body of the loop raises nothing on \<open>link\<close>: the link is skipped, or \<open>urljoin\<close>
  returns.
\<close>

definition resolvable :: "world \<Rightarrow> string \<Rightarrow> string option \<Rightarrow> bool" where
  "resolvable W s link =
     (case link of
        None \<Rightarrow> True
      | Some href \<Rightarrow> href = [] \<or> (case urljoin W s href of Inl e \<Rightarrow> False | Inr t \<Rightarrow> True))"

text \<open>
  The recursive calls that the call \<open>crawl(url, base_url)\<close> can make, as pairs of
  arguments. A set of calls is closed when it contains the calls that its members can make.
\<close>

definition calls :: "world \<Rightarrow> url \<times> string option \<Rightarrow> (url \<times> string option) list" where
  "calls W c =
     (case c of (url, base_url) \<Rightarrow>
        (case get W url of
           Inl e \<Rightarrow> []
         | Inr pg \<Rightarrow> map (\<lambda>t. (t, Some (base_or base_url url)))
                      (link_targets W (base_or base_url url) (page_hrefs pg))))"

definition closed :: "world \<Rightarrow> (url \<times> string option) set \<Rightarrow> bool" where
  "closed W C \<longleftrightarrow> (\<forall>c \<in> C. set (calls W c) \<subseteq> C)"

section \<open>Properties\<close>

subsection \<open>Case analysis of a call that returns\<close>

lemma crawl_Suc_cases:
  assumes "crawl (Suc n) W st url b = Some st'"
  obtains (seen) "url \<in> visited st" and "st' = st"
  | (failed) e where "url \<notin> visited st" and "get W url = Inl e"
      and "st' = print (error_line url e) (log_request url (visited_add url st))"
  | (fetched) pg st3 r where "url \<notin> visited st" and "get W url = Inr pg"
      and "crawl_links n W (index_set url (page_text pg) (log_request url (visited_add url st)))
             url b (page_hrefs pg) = Some (st3, r)"
      and "st' = (case r of None \<Rightarrow> st3 | Some e \<Rightarrow> print (error_line url e) st3)"
proof (cases "url \<in> visited st")
  case True
  then have "crawl (Suc n) W st url b = Some st" by simp
  with assms have "st' = st" by simp
  with True show ?thesis by (rule seen)
next
  case unseen: False
  show ?thesis
  proof (cases "get W url")
    case (Inl e)
    with unseen have "crawl (Suc n) W st url b
        = Some (print (error_line url e) (log_request url (visited_add url st)))"
      by simp
    with assms have "st' = print (error_line url e) (log_request url (visited_add url st))"
      by simp
    with unseen Inl show ?thesis by (rule failed)
  next
    case (Inr pg)
    let ?st2 = "index_set url (page_text pg) (log_request url (visited_add url st))"
    from unseen Inr have unfold: "crawl (Suc n) W st url b =
        (case crawl_links n W ?st2 url b (page_hrefs pg) of
           None \<Rightarrow> None
         | Some (st3, None) \<Rightarrow> Some st3
         | Some (st3, Some e) \<Rightarrow> Some (print (error_line url e) st3))"
      by simp
    show ?thesis
    proof (cases "crawl_links n W ?st2 url b (page_hrefs pg)")
      case None
      with unfold assms show ?thesis by simp
    next
      case (Some res)
      obtain st3 r where res: "res = (st3, r)" by (cases res)
      from unfold Some res assms
      have "st' = (case r of None \<Rightarrow> st3 | Some e \<Rightarrow> print (error_line url e) st3)"
        by (cases r) simp_all
      with unseen Inr Some res show ?thesis using fetched by blast
    qed
  qed
qed

lemma crawl_links_Cons_cases:
  assumes "crawl_links n W st url b (link # links) = Some (st', r)"
  obtains (skip) "link = None \<or> link = Some []"
      and "crawl_links n W st url b links = Some (st', r)"
  | (raised) href e where "link = Some href" and "href \<noteq> []"
      and "urljoin W (base_or b url) href = Inl e" and "st' = st" and "r = Some e"
  | (follow) href t st1 where "link = Some href" and "href \<noteq> []"
      and "urljoin W (base_or b url) href = Inr t" and "prefix (base_or b url) t"
      and "crawl n W st t (Some (base_or b url)) = Some st1"
      and "crawl_links n W st1 url b links = Some (st', r)"
  | (outside) href t where "link = Some href" and "href \<noteq> []"
      and "urljoin W (base_or b url) href = Inr t" and "\<not> prefix (base_or b url) t"
      and "crawl_links n W st url b links = Some (st', r)"
proof (cases link)
  case None
  then have "crawl_links n W st url b (link # links) = crawl_links n W st url b links"
    by simp
  with assms None show ?thesis using skip by simp
next
  case (Some href)
  show ?thesis
  proof (cases "href = []")
    case True
    with Some have "crawl_links n W st url b (link # links) = crawl_links n W st url b links"
      by simp
    with assms Some True show ?thesis using skip by simp
  next
    case nonempty: False
    show ?thesis
    proof (cases "urljoin W (base_or b url) href")
      case (Inl e)
      with Some nonempty have "crawl_links n W st url b (link # links) = Some (st, Some e)"
        by simp
      with assms have "st' = st" and "r = Some e" by simp_all
      with Some nonempty Inl show ?thesis using raised by blast
    next
      case (Inr t)
      show ?thesis
      proof (cases "prefix (base_or b url) t")
        case False
        with Some nonempty Inr
        have "crawl_links n W st url b (link # links) = crawl_links n W st url b links"
          by simp
        with assms have "crawl_links n W st url b links = Some (st', r)" by simp
        with Some nonempty Inr False show ?thesis using outside by blast
      next
        case True
        with Some nonempty Inr
        have unfold: "crawl_links n W st url b (link # links) =
            (case crawl n W st t (Some (base_or b url)) of
               None \<Rightarrow> None
             | Some st1 \<Rightarrow> crawl_links n W st1 url b links)"
          by simp
        show ?thesis
        proof (cases "crawl n W st t (Some (base_or b url))")
          case None
          with unfold assms show ?thesis by simp
        next
          case (Some st1)
          with unfold assms have "crawl_links n W st1 url b links = Some (st', r)" by simp
          with \<open>link = Some href\<close> nonempty Inr True Some show ?thesis using follow by blast
        qed
      qed
    qed
  qed
qed

lemma crawl_inv_rule:
  fixes P :: "session \<Rightarrow> bool"
  assumes F: "\<And>st url e. P st \<Longrightarrow> url \<notin> visited st \<Longrightarrow> get W url = Inl e \<Longrightarrow>
                P (print (error_line url e) (log_request url (visited_add url st)))"
      and S: "\<And>st url pg. P st \<Longrightarrow> url \<notin> visited st \<Longrightarrow> get W url = Inr pg \<Longrightarrow>
                P (index_set url (page_text pg) (log_request url (visited_add url st)))"
      and E: "\<And>st line. P st \<Longrightarrow> P (print line st)"
  shows "crawl n W st url b = Some st' \<Longrightarrow> P st \<Longrightarrow> P st'"
proof (induction n arbitrary: st url b st')
  case 0
  then show ?case by simp
next
  case (Suc n)
  have loop: "P s'" if "crawl_links n W s u c links = Some (s', r)" and "P s" for s s' u c links r
    using that
  proof (induction links arbitrary: s)
    case Nil
    then show ?case by simp
  next
    case (Cons link links)
    from Cons.prems(1) show ?case
    proof (cases rule: crawl_links_Cons_cases)
      case skip
      with Cons show ?thesis by blast
    next
      case (raised href e)
      with Cons show ?thesis by simp
    next
      case (follow href t st1)
      with Suc.IH Cons.prems(2) have "P st1" by blast
      with follow Cons.IH show ?thesis by blast
    next
      case (outside href t)
      with Cons show ?thesis by blast
    qed
  qed
  from Suc.prems(1) show ?case
  proof (cases rule: crawl_Suc_cases)
    case seen
    with Suc.prems show ?thesis by simp
  next
    case (failed e)
    with F Suc.prems show ?thesis by simp
  next
    case (fetched pg st3 r)
    from S fetched Suc.prems have "P (index_set url (page_text pg) (log_request url (visited_add url st)))"
      by simp
    with loop fetched have "P st3" by blast
    with fetched E show ?thesis by (cases r) simp_all
  qed
qed


lemma crawl_links_inv_rule:
  fixes P :: "session \<Rightarrow> bool"
  assumes F: "\<And>st url e. P st \<Longrightarrow> url \<notin> visited st \<Longrightarrow> get W url = Inl e \<Longrightarrow>
                P (print (error_line url e) (log_request url (visited_add url st)))"
      and S: "\<And>st url pg. P st \<Longrightarrow> url \<notin> visited st \<Longrightarrow> get W url = Inr pg \<Longrightarrow>
                P (index_set url (page_text pg) (log_request url (visited_add url st)))"
      and E: "\<And>st line. P st \<Longrightarrow> P (print line st)"
  shows "crawl_links n W st url b links = Some (st', r) \<Longrightarrow> P st \<Longrightarrow> P st'"
proof (induction links arbitrary: st)
  case Nil
  then show ?case by simp
next
  case (Cons link links)
  from Cons.prems(1) show ?case
  proof (cases rule: crawl_links_Cons_cases)
    case skip
    with Cons show ?thesis by blast
  next
    case (raised href e)
    with Cons show ?thesis by simp
  next
    case (follow href t st1)
    from follow(5) Cons.prems(2) have "P st1"
      by (rule crawl_inv_rule [of P W, rotated 3]) (blast intro: F S E)+
    with follow Cons.IH show ?thesis by blast
  next
    case (outside href t)
    with Cons show ?thesis by blast
  qed
qed


text \<open>\<open>visited\<close> only grows.\<close>

lemma crawl_visited_mono:
  assumes "crawl n W st url b = Some st'"
  shows "visited st \<subseteq> visited st'"
proof -
  have "visited st \<subseteq> visited st'"
    by (rule crawl_inv_rule [of "\<lambda>s. visited st \<subseteq> visited s", OF _ _ _ assms])
       (auto simp: print_def log_request_def visited_add_def index_set_def)
  then show ?thesis .
qed

lemma crawl_links_visited_mono:
  assumes "crawl_links n W st url b links = Some (st', r)"
  shows "visited st \<subseteq> visited st'"
  by (rule crawl_links_inv_rule [of "\<lambda>s. visited st \<subseteq> visited s", OF _ _ _ assms])
     (auto simp: print_def log_request_def visited_add_def index_set_def)

text \<open>
  A call that returns has put its URL into \<open>visited\<close>, and a link that the loop reaches
  and that resolves into the scope is crawled.
\<close>

lemma crawl_marks:
  assumes "crawl n W st url b = Some st'"
  shows "url \<in> visited st'"
proof (cases n)
  case 0
  with assms show ?thesis by simp
next
  case (Suc m)
  with assms have "crawl (Suc m) W st url b = Some st'" by simp
  then show ?thesis
  proof (cases rule: crawl_Suc_cases)
    case seen
    then show ?thesis by simp
  next
    case (failed e)
    then show ?thesis by (simp add: print_def log_request_def visited_add_def)
  next
    case (fetched pg st3 r)
    from fetched(3) have "visited (index_set url (page_text pg) (log_request url (visited_add url st)))
        \<subseteq> visited st3"
      by (rule crawl_links_visited_mono)
    then have "url \<in> visited st3"
      by (auto simp: index_set_def log_request_def visited_add_def)
    with fetched(4) show ?thesis by (cases r) (simp_all add: print_def)
  qed
qed

lemma crawl_links_reaches:
  assumes "\<forall>l \<in> set pre. resolvable W (base_or b url) l" and "href \<noteq> []"
      and "urljoin W (base_or b url) href = Inr t" and "prefix (base_or b url) t"
  shows "crawl_links n W st url b (pre @ Some href # post) = Some (st', r) \<Longrightarrow> t \<in> visited st'"
  using assms(1)
proof (induction pre arbitrary: st)
  case Nil
  then have "crawl_links n W st url b (Some href # post) = Some (st', r)" by simp
  then show ?case
  proof (cases rule: crawl_links_Cons_cases)
    case skip
    with assms(2) show ?thesis by simp
  next
    case (raised h e)
    with assms(3) show ?thesis by simp
  next
    case (follow h u st1)
    with assms(3) have "crawl n W st t (Some (base_or b url)) = Some st1" by simp
    then have "t \<in> visited st1" by (rule crawl_marks)
    moreover from follow(6) have "visited st1 \<subseteq> visited st'"
      by (rule crawl_links_visited_mono)
    ultimately show ?thesis by blast
  next
    case (outside h u)
    with assms(3,4) show ?thesis by simp
  qed
next
  case (Cons l pre)
  from Cons.prems(1) have "crawl_links n W st url b (l # (pre @ Some href # post)) = Some (st', r)"
    by simp
  then show ?case
  proof (cases rule: crawl_links_Cons_cases)
    case skip
    with Cons show ?thesis by simp
  next
    case (raised h e)
    with Cons.prems(2) show ?thesis by (simp add: resolvable_def)
  next
    case (follow h u st1)
    with Cons show ?thesis by simp
  next
    case (outside h u)
    with Cons show ?thesis by simp
  qed
qed

text \<open>
  The loop keeps the lines printed before it, and whatever it adds to \<open>visited\<close> it has
  requested.
\<close>

lemma crawl_links_stdout_kept:
  assumes "crawl_links n W st url b links = Some (st', r)" and "line \<in> set (stdout st)"
  shows "line \<in> set (stdout st')"
  using assms
  by (rule crawl_links_inv_rule [of "\<lambda>s. line \<in> set (stdout s)", rotated 3])
     (auto simp: print_def log_request_def visited_add_def index_set_def)

lemma crawl_links_visited_requested:
  assumes "crawl_links n W st url b links = Some (st', r)"
  shows "visited st' \<subseteq> visited st \<union> set (requests st')"
proof -
  have "visited st \<subseteq> visited st \<union> set (requests st)" by blast
  with assms show ?thesis
    by (rule crawl_links_inv_rule [of "\<lambda>s. visited s \<subseteq> visited st \<union> set (requests s)", rotated 3])
       (auto simp: print_def log_request_def visited_add_def index_set_def)
qed

text \<open>The index keeps distinct keys, as a dictionary does.\<close>

lemma crawl_index_distinct:
  assumes "crawl n W st url b = Some st'" and "distinct (map fst (index st))"
  shows "distinct (map fst (index st'))"
  using assms
  by (rule crawl_inv_rule [of "\<lambda>s. distinct (map fst (index s))", rotated 3])
     (auto simp: print_def log_request_def visited_add_def index_set_def distinct_update)

text \<open>The loop of \<open>search\<close> filters the items of the index, in their order.\<close>

lemma search_loop_filter:
  "search_loop lower keyword items results =
     results @ map fst (filter (\<lambda>(url, content). sublist (lower keyword) (lower content)) items)"
  by (induction items arbitrary: results) auto

lemma search_filter:
  "fst (search lower st keyword) =
     map fst (filter (\<lambda>(url, content). sublist (lower keyword) (lower content)) (index st))"
  by (simp add: search_def search_loop_filter)

subsection \<open>The example worlds, run\<close>

lemma site_run: "crawl 4 site init ''https://example.com'' None = Some site_crawled"
  by (simp add: numeral_eq_Suc site_def init_def site_crawled_def example_urljoin_def
      visited_add_def log_request_def index_set_def print_def error_line_def base_or_def insert_commute)

lemma badlink_run: "crawl 2 badlink init ''https://example.com'' None = Some badlink_crawled"
  by (simp add: numeral_eq_Suc badlink_def init_def badlink_crawled_def example_urljoin_def
      visited_add_def log_request_def index_set_def print_def error_line_def base_or_def)


lemma two_pages_run:
  "crawl (Suc 2) two_pages init ''https://example.com'' None = Some two_pages_crawled"
  by (simp add: numeral_eq_Suc two_pages_def init_def two_pages_crawled_def example_urljoin_def
      visited_add_def log_request_def index_set_def print_def error_line_def base_or_def insert_commute)

lemma flaky_run:
  "crawl (Suc 1) flaky init ''https://example.com'' None = Some flaky_crawled"
  by (simp add: numeral_eq_Suc flaky_def init_def flaky_crawled_def example_urljoin_def
      visited_add_def log_request_def index_set_def print_def error_line_def base_or_def insert_commute)

lemma flaky_loop_failed:
  "crawl_links (Suc 0) flaky flaky_fetched ''https://example.com'' None [Some ''/missing'']
     = Some (flaky_failed, None)"
  by (simp add: flaky_def flaky_fetched_def flaky_failed_def example_urljoin_def
      visited_add_def log_request_def index_set_def print_def error_line_def base_or_def insert_commute)

lemma flaky_loop_run:
  "crawl_links (Suc 0) flaky flaky_fetched ''https://example.com'' None
     [Some ''/missing'', None, Some ''/about''] = Some (flaky_crawled, None)"
  by (simp add: flaky_def flaky_fetched_def flaky_crawled_def example_urljoin_def
      visited_add_def log_request_def index_set_def print_def error_line_def base_or_def insert_commute)

subsection \<open>A visited URL is left alone\<close>

text \<open>
  Claim C6. When \<open>url\<close> is already in \<open>visited\<close>, \<open>crawl\<close> returns at once, whatever
  the scope and with any fuel that allows the call itself: the whole state (index, visited
  set, printed lines, log of requests) is the one it was given, so nothing was fetched.
\<close>

theorem crawl_visited_noop:
  "url \<in> visited st \<Longrightarrow> crawl (Suc n) W st url base_url = Some st"
  by simp

theorem crawl_visited_noop_witness:
  "''https://example.com'' \<in> visited (visited_add ''https://example.com'' init) \<and>
   crawl (Suc 0) offline (visited_add ''https://example.com'' init) ''https://example.com'' None
     = Some (visited_add ''https://example.com'' init)"
proof -
  have h: "''https://example.com'' \<in> visited (visited_add ''https://example.com'' init)"
    by (simp add: visited_add_def)
  from h crawl_visited_noop [OF h, of 0 offline None] show ?thesis by simp
qed

subsection \<open>No URL is requested twice\<close>

text \<open>
  Claim C1. No URL is passed to \<open>requests.get\<close> more than once. In a state where the
  requests made so far are pairwise distinct and all in \<open>visited\<close> (as in the fresh state
  \<open>init\<close>, where no request was made), every call of \<open>crawl\<close> that returns, on any world and
  so on any link graph, leaves a state with the same two properties: \<open>crawl\<close> puts a URL
  into \<open>visited\<close> before it requests it and never requests a member of \<open>visited\<close>. The
  property therefore holds after any number of calls made on a fresh crawler.
\<close>

theorem crawl_fetches_once:
  assumes "crawl n W st url base_url = Some st'"
      and "set (requests st) \<subseteq> visited st" and "distinct (requests st)"
  shows "set (requests st') \<subseteq> visited st' \<and> distinct (requests st')"
proof -
  let ?P = "\<lambda>s. set (requests s) \<subseteq> visited s \<and> distinct (requests s)"
  from assms(2,3) have "?P st" by simp
  with assms(1) show "?P st'"
    by (rule crawl_inv_rule [of ?P, rotated 3])
       (auto simp: print_def log_request_def visited_add_def index_set_def)
qed

theorem crawl_fetches_once_witness:
  "crawl 4 site init ''https://example.com'' None = Some site_crawled \<and>
   set (requests init) \<subseteq> visited init \<and> distinct (requests init) \<and>
   set (requests site_crawled) \<subseteq> visited site_crawled \<and> distinct (requests site_crawled)"
proof -
  have a: "set (requests init) \<subseteq> visited init" and b: "distinct (requests init)"
    by (simp_all add: init_def)
  from crawl_fetches_once [OF site_run a b] site_run a b show ?thesis by simp
qed

subsection \<open>The keys of the index are visited\<close>

text \<open>
  Claim C9. The keys of \<open>index\<close> form a subset of \<open>visited\<close>: this holds for a fresh
  crawler, and \<open>crawl\<close> (when it returns), \<open>search\<close> and \<open>print_results\<close> preserve it.
\<close>

theorem index_keys_visited:
  "fst ` set (index init) \<subseteq> visited init \<and>
   (fst ` set (index st) \<subseteq> visited st \<longrightarrow>
      (crawl n W st url base_url = Some st' \<longrightarrow> fst ` set (index st') \<subseteq> visited st') \<and>
      fst ` set (index (snd (search lower st keyword))) \<subseteq> visited (snd (search lower st keyword)) \<and>
      fst ` set (index (print_results results st)) \<subseteq> visited (print_results results st))"
proof -
  let ?P = "\<lambda>s. fst ` set (index s) \<subseteq> visited s"
  have print_each: "index (print_each rs s) = index s \<and> visited (print_each rs s) = visited s" for rs s
    by (induction rs arbitrary: s) (simp_all add: print_def)
  have "?P st'" if "?P st" and "crawl n W st url base_url = Some st'"
    using that(2,1)
    by (rule crawl_inv_rule [of ?P, rotated 3])
       (auto simp: print_def log_request_def visited_add_def index_set_def dom_update)
  moreover have "?P (print_results results st)" if "?P st"
    using that by (simp add: print_results_def print_each print_def)
  ultimately show ?thesis by (auto simp: init_def search_def)
qed

theorem index_keys_visited_witness:
  "fst ` set (index init) \<subseteq> visited init \<and>
   crawl 4 site init ''https://example.com'' None = Some site_crawled \<and>
   fst ` set (index site_crawled) \<subseteq> visited site_crawled"
  using index_keys_visited [of init 4 site "''https://example.com''" None site_crawled] site_run
  by simp

subsection \<open>Index completeness\<close>

text \<open>
  Claim C4. After a crawl, every URL whose request gave a page is in the index with the text
  of that page, every URL whose request failed is absent from the index and present in
  \<open>visited\<close>, and the index has a key only for a URL that was requested and gave a page.
  This is \<open>index_complete\<close>; it holds for a fresh crawler and every call of \<open>crawl\<close> that
  returns preserves it.
\<close>

theorem crawl_index_complete:
  "index_complete W init \<and>
   (index_complete W st \<longrightarrow> crawl n W st url base_url = Some st' \<longrightarrow> index_complete W st')"
proof -
  have "index_complete W st'" if "crawl n W st url base_url = Some st'" and "index_complete W st"
    using that
  proof (rule crawl_inv_rule [of "index_complete W", rotated 3])
    fix s u e
    assume "index_complete W s" and "u \<notin> visited s" and "get W u = Inl e"
    then show "index_complete W (print (error_line u e) (log_request u (visited_add u s)))"
      by (auto simp: index_complete_def print_def log_request_def visited_add_def
          split: sum.splits)
  next
    fix s u pg
    assume "index_complete W s" and "u \<notin> visited s" and "get W u = Inr pg"
    then show "index_complete W (index_set u (page_text pg) (log_request u (visited_add u s)))"
      by (auto simp: index_complete_def index_set_def log_request_def visited_add_def
          update_conv' split: sum.splits)
  next
    fix s line
    assume "index_complete W s"
    then show "index_complete W (print line s)"
      by (auto simp: index_complete_def print_def split: sum.splits)
  qed
  moreover have "index_complete W init"
    by (simp add: index_complete_def init_def)
  ultimately show ?thesis by blast
qed

theorem crawl_index_complete_witness:
  "index_complete site init \<and>
   crawl 4 site init ''https://example.com'' None = Some site_crawled \<and>
   index_complete site site_crawled \<and>
   map_of (index site_crawled) ''https://example.com/team'' = Some ''The Team'' \<and>
   map_of (index site_crawled) ''https://example.com/missing'' = None \<and>
   ''https://example.com/missing'' \<in> visited site_crawled"
  using crawl_index_complete [of site init 4 "''https://example.com''" None site_crawled] site_run
  by (simp add: site_crawled_def)

subsection \<open>A failed request\<close>

text \<open>
  Claim C5. When the request for a URL that is not yet visited fails with message \<open>e\<close>,
  \<open>crawl\<close> returns (it raises nothing), having added the URL to \<open>visited\<close>, printed the one
  line \<open>Error crawling <url>: <e>\<close> and left the index as it was. When the call was made by
  the loop over the links of a page \<open>parent\<close>, no exception reaches the loop: on that link
  alone the loop ends normally in the state just described, and in general it goes on with
  the remaining links from that state. So when the loop returns, a later link that it
  reaches and that resolves into the scope has been crawled (its URL is visited, and
  requested unless it had been visited before), while the failed URL stays visited and its
  error line stays printed.
\<close>

theorem crawl_fetch_failure:
  assumes "url \<notin> visited st" and "get W url = Inl e"
  shows "crawl (Suc n) W st url base_url =
           Some (st\<lparr>visited := insert url (visited st),
                    stdout := stdout st @ [''Error crawling '' @ url @ '': '' @ e],
                    requests := requests st @ [url]\<rparr>)
         \<and> (href \<noteq> [] \<and> urljoin W (base_or b parent) href = Inr url \<and>
              prefix (base_or b parent) url \<longrightarrow>
            crawl_links (Suc n) W st parent b [Some href] =
              Some (st\<lparr>visited := insert url (visited st),
                       stdout := stdout st @ [''Error crawling '' @ url @ '': '' @ e],
                       requests := requests st @ [url]\<rparr>, None) \<and>
            crawl_links (Suc n) W st parent b (Some href # links) =
              crawl_links (Suc n) W
                (st\<lparr>visited := insert url (visited st),
                    stdout := stdout st @ [''Error crawling '' @ url @ '': '' @ e],
                    requests := requests st @ [url]\<rparr>) parent b links \<and>
            (links = mid @ Some href2 # post \<and>
             list_all (resolvable W (base_or b parent)) mid \<and>
             href2 \<noteq> [] \<and> urljoin W (base_or b parent) href2 = Inr sibling \<and>
             prefix (base_or b parent) sibling \<and>
             crawl_links (Suc n) W st parent b (Some href # links) = Some (st', r) \<longrightarrow>
               sibling \<in> visited st' \<and>
               (sibling \<notin> visited st \<and> sibling \<noteq> url \<longrightarrow> sibling \<in> set (requests st')) \<and>
               url \<in> visited st' \<and>
               ''Error crawling '' @ url @ '': '' @ e \<in> set (stdout st')))"
proof -
  let ?F = "st\<lparr>visited := insert url (visited st),
               stdout := stdout st @ [''Error crawling '' @ url @ '': '' @ e],
               requests := requests st @ [url]\<rparr>"
  from assms have run: "crawl (Suc n) W st url c = Some ?F" for c
    by (simp add: print_def error_line_def log_request_def visited_add_def)
  have one: "crawl_links (Suc n) W st parent b [Some href] = Some (?F, None)"
    and step: "crawl_links (Suc n) W st parent b (Some href # links) =
                 crawl_links (Suc n) W ?F parent b links"
    if "href \<noteq> []" and "urljoin W (base_or b parent) href = Inr url"
      and "prefix (base_or b parent) url"
    using that run [of "Some (base_or b parent)"] by (simp_all del: crawl.simps)
  have later: "sibling \<in> visited st' \<and>
               (sibling \<notin> visited st \<and> sibling \<noteq> url \<longrightarrow> sibling \<in> set (requests st')) \<and>
               url \<in> visited st' \<and>
               ''Error crawling '' @ url @ '': '' @ e \<in> set (stdout st')"
    if link: "href \<noteq> []" "urljoin W (base_or b parent) href = Inr url"
        "prefix (base_or b parent) url"
      and rest: "links = mid @ Some href2 # post"
      and mid: "list_all (resolvable W (base_or b parent)) mid"
      and sib: "href2 \<noteq> []" "urljoin W (base_or b parent) href2 = Inr sibling"
        "prefix (base_or b parent) sibling"
      and ret: "crawl_links (Suc n) W st parent b (Some href # links) = Some (st', r)"
  proof -
    from step [OF link] ret rest
    have loop: "crawl_links (Suc n) W ?F parent b (mid @ Some href2 # post) = Some (st', r)"
      by simp
    from mid have "\<forall>l \<in> set mid. resolvable W (base_or b parent) l"
      by (simp add: list_all_iff)
    from this sib loop have a: "sibling \<in> visited st'"
      by (rule crawl_links_reaches)
    from loop have "visited ?F \<subseteq> visited st'"
      by (rule crawl_links_visited_mono)
    then have c: "url \<in> visited st'" by auto
    from loop have "visited st' \<subseteq> visited ?F \<union> set (requests st')"
      by (rule crawl_links_visited_requested)
    with a have b: "sibling \<notin> visited st \<and> sibling \<noteq> url \<longrightarrow> sibling \<in> set (requests st')"
      by auto
    have "''Error crawling '' @ url @ '': '' @ e \<in> set (stdout ?F)" by simp
    with loop have d: "''Error crawling '' @ url @ '': '' @ e \<in> set (stdout st')"
      by (rule crawl_links_stdout_kept)
    from a b c d show ?thesis by blast
  qed
  from run [of base_url] one step later show ?thesis by blast
qed


theorem crawl_fetch_failure_witness:
  "''https://example.com/missing'' \<notin> visited flaky_fetched \<and>
   get flaky ''https://example.com/missing'' = Inl ''404 Not Found'' \<and>
   crawl (Suc 0) flaky flaky_fetched ''https://example.com/missing'' (Some ''https://example.com'')
     = Some flaky_failed \<and>
   ''/missing'' \<noteq> [] \<and>
   urljoin flaky (base_or None ''https://example.com'') ''/missing''
     = Inr ''https://example.com/missing'' \<and>
   prefix (base_or None ''https://example.com'') ''https://example.com/missing'' \<and>
   crawl_links (Suc 0) flaky flaky_fetched ''https://example.com'' None [Some ''/missing'']
     = Some (flaky_failed, None) \<and>
   list_all (resolvable flaky (base_or None ''https://example.com'')) [None] \<and>
   ''/about'' \<noteq> [] \<and>
   urljoin flaky (base_or None ''https://example.com'') ''/about''
     = Inr ''https://example.com/about'' \<and>
   prefix (base_or None ''https://example.com'') ''https://example.com/about'' \<and>
   crawl_links (Suc 0) flaky flaky_fetched ''https://example.com'' None
     [Some ''/missing'', None, Some ''/about''] = Some (flaky_crawled, None) \<and>
   crawl_links (Suc 0) flaky flaky_failed ''https://example.com'' None
     [None, Some ''/about''] = Some (flaky_crawled, None) \<and>
   ''https://example.com/about'' \<in> visited flaky_crawled \<and>
   ''https://example.com/about'' \<in> set (requests flaky_crawled) \<and>
   ''https://example.com/missing'' \<in> visited flaky_crawled \<and>
   ''Error crawling https://example.com/missing: 404 Not Found'' \<in> set (stdout flaky_crawled) \<and>
   crawl (Suc 1) flaky init ''https://example.com'' None = Some flaky_crawled"
proof -
  have a: "''https://example.com/missing'' \<notin> visited flaky_fetched"
    by (simp add: flaky_fetched_def)
  have b: "get flaky ''https://example.com/missing'' = Inl ''404 Not Found''"
    by (simp add: flaky_def)
  have c: "''/missing'' \<noteq> []" by simp
  have d: "urljoin flaky (base_or None ''https://example.com'') ''/missing''
             = Inr ''https://example.com/missing''"
    by (simp add: flaky_def example_urljoin_def base_or_def)
  have e: "prefix (base_or None ''https://example.com'') ''https://example.com/missing''"
    by (simp add: base_or_def)
  have f: "list_all (resolvable flaky (base_or None ''https://example.com'')) [None]"
    by (simp add: resolvable_def)
  have g: "''/about'' \<noteq> []" by simp
  have h: "urljoin flaky (base_or None ''https://example.com'') ''/about''
             = Inr ''https://example.com/about''"
    by (simp add: flaky_def example_urljoin_def base_or_def)
  have i: "prefix (base_or None ''https://example.com'') ''https://example.com/about''"
    by (simp add: base_or_def)
  have fresh: "''https://example.com/about'' \<notin> visited flaky_fetched"
    and other: "''https://example.com/about'' \<noteq> ''https://example.com/missing''"
    by (simp_all add: flaky_fetched_def)
  have failed: "flaky_fetched\<lparr>visited := insert ''https://example.com/missing'' (visited flaky_fetched),
        stdout := stdout flaky_fetched
          @ [''Error crawling https://example.com/missing: 404 Not Found''],
        requests := requests flaky_fetched @ [''https://example.com/missing'']\<rparr> = flaky_failed"
    by (simp add: flaky_fetched_def flaky_failed_def)
  have line: "''Error crawling '' @ ''https://example.com/missing'' @ '': '' @ ''404 Not Found''
        = ''Error crawling https://example.com/missing: 404 Not Found''"
    by simp
  note inst = crawl_fetch_failure [OF a b, where n = 0 and base_url = "Some ''https://example.com''"
      and href = "''/missing''" and b = None and parent = "''https://example.com''"
      and links = "[None, Some ''/about'']" and mid = "[None]" and ?href2.0 = "''/about''"
      and post = "[]" and sibling = "''https://example.com/about''"
      and st' = flaky_crawled and r = None, unfolded line, unfolded failed]
  from inst have r1: "crawl (Suc 0) flaky flaky_fetched ''https://example.com/missing''
      (Some ''https://example.com'') = Some flaky_failed"
    by (rule conjunct1)
  from inst c d e
  have r2: "crawl_links (Suc 0) flaky flaky_fetched ''https://example.com'' None [Some ''/missing'']
      = Some (flaky_failed, None)"
    and r3: "crawl_links (Suc 0) flaky flaky_fetched ''https://example.com'' None
        [Some ''/missing'', None, Some ''/about'']
      = crawl_links (Suc 0) flaky flaky_failed ''https://example.com'' None [None, Some ''/about'']"
    by blast+
  from r3 flaky_loop_run
  have r4: "crawl_links (Suc 0) flaky flaky_failed ''https://example.com'' None
      [None, Some ''/about''] = Some (flaky_crawled, None)"
    by simp
  from inst c d e f g h i flaky_loop_run fresh other
  have r5: "''https://example.com/about'' \<in> visited flaky_crawled"
    and r6: "''https://example.com/about'' \<in> set (requests flaky_crawled)"
    and r7: "''https://example.com/missing'' \<in> visited flaky_crawled"
    and r8: "''Error crawling https://example.com/missing: 404 Not Found''
               \<in> set (stdout flaky_crawled)"
    by simp_all
  from a b r1 c d e r2 f g h i flaky_loop_run r4 r5 r6 r7 r8 flaky_run
  show ?thesis by blast
qed

subsection \<open>search\<close>

text \<open>
  Claim C3. For every index (a dictionary: its keys are distinct) and every keyword,
  \<open>search\<close> returns exactly the keys whose stored text contains the keyword as a substring
  once both are lower-cased. With the empty keyword it returns every key (\<open>str.lower\<close> maps
  the empty string to itself), and on an empty index it returns nothing.
\<close>

theorem search_correct:
  assumes "distinct (map fst (index st))"
  shows "set (fst (search lower st keyword)) =
           {url. \<exists>content pre post. map_of (index st) url = Some content \<and>
                   lower content = pre @ lower keyword @ post}
         \<and> (lower [] = [] \<longrightarrow> set (fst (search lower st [])) = fst ` set (index st))
         \<and> (index st = [] \<longrightarrow> fst (search lower st keyword) = [])"
proof (intro conjI impI)
  have mem: "(url, content) \<in> set (index st) \<longleftrightarrow> map_of (index st) url = Some content"
    for url content
    using assms by simp
  have "set (fst (search lower st keyword)) =
          {url. \<exists>content. (url, content) \<in> set (index st) \<and>
                  sublist (lower keyword) (lower content)}"
    unfolding search_filter by (auto simp: image_iff)
  also have "\<dots> = {url. \<exists>content pre post. map_of (index st) url = Some content \<and>
                   lower content = pre @ lower keyword @ post}"
    unfolding mem sublist_def by blast
  finally show "set (fst (search lower st keyword)) =
           {url. \<exists>content pre post. map_of (index st) url = Some content \<and>
                   lower content = pre @ lower keyword @ post}" .
next
  assume "lower [] = []"
  then show "set (fst (search lower st [])) = fst ` set (index st)"
    by (simp add: search_filter case_prod_unfold)
next
  assume "index st = []"
  then show "fst (search lower st keyword) = []"
    by (simp add: search_filter)
qed

theorem search_correct_witness:
  "distinct (map fst (index greetings)) \<and> ascii_lower [] = [] \<and>
   fst (search ascii_lower greetings ''hello'') = [''a'', ''b''] \<and>
   {url. \<exists>content pre post. map_of (index greetings) url = Some content \<and>
           ascii_lower content = pre @ ascii_lower ''hello'' @ post} = {''a'', ''b''} \<and>
   set (fst (search ascii_lower greetings [])) = fst ` set (index greetings)"
proof -
  have d: "distinct (map fst (index greetings))"
    by (simp add: greetings_def)
  have l: "ascii_lower [] = []"
    by (simp add: ascii_lower_def)
  have r: "fst (search ascii_lower greetings ''hello'') = [''a'', ''b'']"
    by code_simp
  from search_correct [OF d, of ascii_lower "''hello''"]
  have "{url. \<exists>content pre post. map_of (index greetings) url = Some content \<and>
           ascii_lower content = pre @ ascii_lower ''hello'' @ post}
        = set (fst (search ascii_lower greetings ''hello''))"
    and "ascii_lower [] = [] \<longrightarrow>
           set (fst (search ascii_lower greetings [])) = fst ` set (index greetings)"
    by simp_all
  with d l r show ?thesis by simp
qed

text \<open>
  Claim C8. \<open>search\<close> has no side effect: the state it returns is the state it was given
  (index, visited set and all). Searching again for the same keyword in that state gives
  the same result, and the result depends on no part of the state but the index.
\<close>

theorem search_pure:
  "snd (search lower st keyword) = st \<and>
   fst (search lower (snd (search lower st keyword)) keyword) = fst (search lower st keyword) \<and>
   fst (search lower (st\<lparr>visited := V, stdout := out, requests := log\<rparr>) keyword)
     = fst (search lower st keyword)"
  by (simp add: search_def)

text \<open>
  Claim C10. The list that \<open>search\<close> returns has no duplicates, each of its elements is a
  key of the index, and the elements come in the order in which the index holds them: the
  list is a subsequence of the list of keys.
\<close>

theorem search_result_order:
  assumes "distinct (map fst (index st))"
  shows "distinct (fst (search lower st keyword)) \<and>
         set (fst (search lower st keyword)) \<subseteq> fst ` set (index st) \<and>
         subseq (fst (search lower st keyword)) (map fst (index st))"
proof -
  have "subseq (fst (search lower st keyword)) (map fst (index st))"
    by (simp add: search_filter subseq_map)
  moreover from assms have "distinct (fst (search lower st keyword))"
    by (simp add: search_filter distinct_map_filter)
  moreover have "set (fst (search lower st keyword)) \<subseteq> fst ` set (index st)"
    by (auto simp: search_filter)
  ultimately show ?thesis by blast
qed

theorem search_result_order_witness:
  "distinct (map fst (index site_crawled)) \<and>
   fst (search ascii_lower site_crawled ''T'') =
     [''https://example.com/about'', ''https://example.com/team'',
      ''https://example.com.evil.com''] \<and>
   distinct (fst (search ascii_lower site_crawled ''T'')) \<and>
   set (fst (search ascii_lower site_crawled ''T'')) \<subseteq> fst ` set (index site_crawled) \<and>
   subseq (fst (search ascii_lower site_crawled ''T'')) (map fst (index site_crawled))"
proof -
  have d: "distinct (map fst (index site_crawled))"
    by (simp add: site_crawled_def)
  have r: "fst (search ascii_lower site_crawled ''T'') =
     [''https://example.com/about'', ''https://example.com/team'',
      ''https://example.com.evil.com'']"
    by code_simp
  from search_result_order [OF d, of ascii_lower "''T''"] d r show ?thesis by blast
qed

subsection \<open>Termination\<close>

text \<open>
  With \<open>m\<close> URLs still unvisited in a closed set of calls, fuel \<open>m + 1\<close> is enough: every
  call that does more than return at once puts a new URL into \<open>visited\<close>, and \<open>visited\<close>
  never shrinks.
\<close>

lemma card_diff_visited:
  assumes "finite U" and "V \<subseteq> V'" and "card (U - V) \<le> m"
  shows "card (U - V') \<le> m"
proof -
  from assms(1) have "finite (U - V)" by simp
  moreover from assms(2) have "U - V' \<subseteq> U - V" by blast
  ultimately have "card (U - V') \<le> card (U - V)" by (rule card_mono)
  with assms(3) show ?thesis by simp
qed

lemma crawl_links_returns:
  assumes callee: "\<And>s t. t \<in> set (link_targets W (base_or b url) links0) \<Longrightarrow>
                     card (U - visited s) \<le> m \<Longrightarrow>
                     \<exists>s'. crawl k W s t (Some (base_or b url)) = Some s'"
      and fin: "finite U"
  shows "set (link_targets W (base_or b url) links) \<subseteq> set (link_targets W (base_or b url) links0) \<Longrightarrow>
         card (U - visited st) \<le> m \<Longrightarrow>
         \<exists>st' r. crawl_links k W st url b links = Some (st', r)"
proof (induction links arbitrary: st)
  case Nil
  then show ?case by simp
next
  case (Cons link links)
  show ?case
  proof (cases link)
    case None
    with Cons show ?thesis by simp
  next
    case (Some href)
    show ?thesis
    proof (cases "href = []")
      case True
      with Some Cons show ?thesis by simp
    next
      case nonempty: False
      show ?thesis
      proof (cases "urljoin W (base_or b url) href")
        case (Inl e)
        with Some nonempty show ?thesis by simp
      next
        case (Inr t)
        show ?thesis
        proof (cases "prefix (base_or b url) t")
          case False
          with Some nonempty Inr Cons show ?thesis by simp
        next
          case True
          with Some nonempty Inr
          have targets: "link_targets W (base_or b url) (link # links)
                           = t # link_targets W (base_or b url) links"
            by simp
          with Cons.prems(1) have "t \<in> set (link_targets W (base_or b url) links0)"
            by simp
          with callee Cons.prems(2) obtain s'
            where run: "crawl k W st t (Some (base_or b url)) = Some s'"
            by blast
          then have "visited st \<subseteq> visited s'" by (rule crawl_visited_mono)
          with fin Cons.prems(2) have "card (U - visited s') \<le> m"
            by (blast intro: card_diff_visited)
          moreover from targets Cons.prems(1)
          have "set (link_targets W (base_or b url) links)
                  \<subseteq> set (link_targets W (base_or b url) links0)"
            by simp
          ultimately obtain st' r where "crawl_links k W s' url b links = Some (st', r)"
            using Cons.IH by blast
          with Some nonempty Inr True run show ?thesis by simp
        qed
      qed
    qed
  qed
qed

lemma crawl_returns:
  assumes cl: "closed W C" and fin: "finite (fst ` C)"
  shows "(url, b) \<in> C \<Longrightarrow> card (fst ` C - visited st) \<le> n \<Longrightarrow>
         \<exists>st'. crawl (Suc n) W st url b = Some st'"
proof (induction n arbitrary: url b st)
  case 0
  with fin have "fst ` C - visited st = {}" by simp
  moreover from 0(1) have "url \<in> fst ` C" by force
  ultimately have "url \<in> visited st" by blast
  then show ?case by simp
next
  case (Suc m)
  show ?case
  proof (cases "url \<in> visited st")
    case True
    then show ?thesis by simp
  next
    case unseen: False
    show ?thesis
    proof (cases "get W url")
      case (Inl e)
      with unseen show ?thesis by simp
    next
      case (Inr pg)
      let ?st2 = "index_set url (page_text pg) (log_request url (visited_add url st))"
      from Suc.prems(1) have "url \<in> fst ` C" by force
      with unseen have "url \<in> fst ` C - visited st" by simp
      with fin have "card (fst ` C - visited st - {url}) < card (fst ` C - visited st)"
        by (intro card_Diff1_less) simp_all
      moreover have "fst ` C - visited ?st2 = fst ` C - visited st - {url}"
        by (auto simp: index_set_def log_request_def visited_add_def)
      ultimately have "card (fst ` C - visited ?st2) < card (fst ` C - visited st)"
        by simp
      with Suc.prems(2) have small: "card (fst ` C - visited ?st2) \<le> m" by simp
      have callee: "\<exists>s'. crawl (Suc m) W s t (Some (base_or b url)) = Some s'"
        if "t \<in> set (link_targets W (base_or b url) (page_hrefs pg))"
          and "card (fst ` C - visited s) \<le> m" for s t
      proof -
        from that(1) Inr have "(t, Some (base_or b url)) \<in> set (calls W (url, b))"
          by (simp add: calls_def)
        with cl Suc.prems(1) have "(t, Some (base_or b url)) \<in> C"
          by (auto simp: closed_def)
        then show ?thesis using that(2) by (rule Suc.IH)
      qed
      have "\<exists>st' r. crawl_links (Suc m) W ?st2 url b (page_hrefs pg) = Some (st', r)"
        by (rule crawl_links_returns [where ?links0.0 = "page_hrefs pg" and U = "fst ` C" and m = m])
           (use callee fin small in auto)
      then obtain st3 r
        where "crawl_links (Suc m) W ?st2 url b (page_hrefs pg) = Some (st3, r)"
        by blast
      with unseen Inr show ?thesis by (cases r) simp_all
    qed
  qed
qed

text \<open>More fuel does not change the result of a call that returns.\<close>

lemma crawl_fuel_Suc:
  "crawl n W st url b = Some st' \<Longrightarrow> crawl (Suc n) W st url b = Some st'"
proof (induction n arbitrary: st url b st')
  case 0
  then show ?case by simp
next
  case (Suc n)
  have loop: "crawl_links (Suc n) W s v c links = Some (s', r)"
    if "crawl_links n W s v c links = Some (s', r)" for s s' v c links r
    using that
  proof (induction links arbitrary: s)
    case Nil
    then show ?case by simp
  next
    case (Cons link links)
    from Cons.prems show ?case
    proof (cases rule: crawl_links_Cons_cases)
      case skip
      from Cons.IH [OF skip(2)] skip(1) show ?thesis by auto
    next
      case (raised href e)
      then show ?thesis by simp
    next
      case (follow href t s1)
      from Suc.IH [OF follow(5)] Cons.IH [OF follow(6)] follow(1-4)
      show ?thesis by (simp del: crawl.simps)
    next
      case (outside href t)
      from Cons.IH [OF outside(5)] outside(1-4) show ?thesis by simp
    qed
  qed
  from Suc.prems show ?case
  proof (cases rule: crawl_Suc_cases)
    case seen
    then show ?thesis by simp
  next
    case (failed e)
    then show ?thesis by simp
  next
    case (fetched pg st3 r)
    from loop [OF fetched(3)] fetched(1,2,4) show ?thesis
      by (cases r) (simp_all del: crawl_links.simps)
  qed
qed

lemma crawl_fuel_mono:
  assumes "crawl n W st url b = Some st'" and "n \<le> k"
  shows "crawl k W st url b = Some st'"
proof -
  have "crawl (n + d) W st url b = Some st'" for d
    by (induction d) (simp_all add: assms(1) crawl_fuel_Suc del: crawl.simps)
  from this [of "k - n"] assms(2) show ?thesis by simp
qed

text \<open>
  Claim C7. A crawl terminates when the calls it can reach involve finitely many URLs: for a
  closed set \<open>C\<close> of calls that contains the call at hand and mentions finitely many URLs,
  the nesting of calls never exceeds the number of URLs of \<open>C\<close> that are not yet visited,
  plus one for the call itself, so with that much fuel or more \<open>crawl\<close> returns, and
  returns the same state. The visited set of the result contains the one before. There is
  no other limit in the code; cycles are cut by the visited set, as for the two pages that
  link to each other.
\<close>

theorem crawl_terminates:
  assumes "closed W C" and "(url, base_url) \<in> C" and "finite (fst ` C)"
      and "card (fst ` C - visited st) \<le> n"
  shows "\<exists>st'. (\<forall>k. Suc n \<le> k \<longrightarrow> crawl k W st url base_url = Some st') \<and>
               visited st \<subseteq> visited st'"
proof -
  from assms obtain st' where run: "crawl (Suc n) W st url base_url = Some st'"
    using crawl_returns by blast
  then have "visited st \<subseteq> visited st'" by (rule crawl_visited_mono)
  moreover from run have "crawl k W st url base_url = Some st'" if "Suc n \<le> k" for k
    using that by (rule crawl_fuel_mono)
  ultimately show ?thesis by blast
qed

theorem crawl_terminates_witness:
  "closed two_pages {(''https://example.com'', None),
                     (''https://example.com/about'', Some ''https://example.com''),
                     (''https://example.com'', Some ''https://example.com'')} \<and>
   card (fst ` {(''https://example.com'', None),
                (''https://example.com/about'', Some ''https://example.com''),
                (''https://example.com'', Some ''https://example.com'')} - visited init) \<le> 2 \<and>
   crawl (Suc 2) two_pages init ''https://example.com'' None = Some two_pages_crawled \<and>
   crawl 1000 two_pages init ''https://example.com'' None = Some two_pages_crawled \<and>
   visited init \<subseteq> visited two_pages_crawled"
proof -
  let ?C = "{(''https://example.com'', None),
             (''https://example.com/about'', Some ''https://example.com''),
             (''https://example.com'', Some ''https://example.com'')}"
  have a: "closed two_pages ?C"
    by (simp add: closed_def calls_def two_pages_def example_urljoin_def base_or_def)
  have b: "(''https://example.com'', None) \<in> ?C" by simp
  have c: "finite (fst ` ?C)" by simp
  have d: "card (fst ` ?C - visited init) \<le> 2" by (simp add: init_def card_insert_if)
  from crawl_terminates [OF a b c d] obtain st'
    where all: "\<And>k. Suc 2 \<le> k \<Longrightarrow> crawl k two_pages init ''https://example.com'' None = Some st'"
      and grow: "visited init \<subseteq> visited st'"
    by blast
  from all [of "Suc 2"] two_pages_run have "st' = two_pages_crawled" by simp
  with all [of 1000] grow
  have "crawl 1000 two_pages init ''https://example.com'' None = Some two_pages_crawled"
    and "visited init \<subseteq> visited two_pages_crawled"
    by simp_all
  with a d two_pages_run show ?thesis by blast
qed

subsection \<open>Scope\<close>

text \<open>
  Whatever a call visits or requests is its own URL or has the scope string as a prefix.
\<close>

lemma base_or_scope:
  assumes "prefix s t" and "prefix (base_or (Some s) t) u"
  shows "prefix s u"
proof (cases "s = []")
  case True
  then show ?thesis by simp
next
  case False
  with assms(2) show ?thesis by (simp add: base_or_def)
qed

lemma crawl_in_scope:
  "crawl n W st url b = Some st' \<Longrightarrow>
     visited st' \<subseteq> visited st \<union> {url} \<union> {u. prefix (base_or b url) u} \<and>
     set (requests st') \<subseteq> set (requests st) \<union> {url} \<union> {u. prefix (base_or b url) u}"
proof (induction n arbitrary: st url b st')
  case 0
  then show ?case by simp
next
  case (Suc n)
  have loop: "visited s' \<subseteq> visited s \<union> {u. prefix (base_or c v) u} \<and>
              set (requests s') \<subseteq> set (requests s) \<union> {u. prefix (base_or c v) u}"
    if "crawl_links n W s v c links = Some (s', r)" for s s' v c links r
    using that
  proof (induction links arbitrary: s)
    case Nil
    then show ?case by simp
  next
    case (Cons link links)
    from Cons.prems show ?case
    proof (cases rule: crawl_links_Cons_cases)
      case skip
      with Cons.IH show ?thesis by blast
    next
      case (raised href e)
      then show ?thesis by simp
    next
      case (follow href t s1)
      from Suc.IH [OF follow(5)]
      have "visited s1 \<subseteq> visited s \<union> {t} \<union> {u. prefix (base_or (Some (base_or c v)) t) u}"
        and "set (requests s1) \<subseteq> set (requests s) \<union> {t} \<union> {u. prefix (base_or (Some (base_or c v)) t) u}"
        by simp_all
      with follow(4) have "visited s1 \<subseteq> visited s \<union> {u. prefix (base_or c v) u}"
        and "set (requests s1) \<subseteq> set (requests s) \<union> {u. prefix (base_or c v) u}"
        by (auto dest: base_or_scope)
      moreover from Cons.IH [OF follow(6)]
      have "visited s' \<subseteq> visited s1 \<union> {u. prefix (base_or c v) u}"
        and "set (requests s') \<subseteq> set (requests s1) \<union> {u. prefix (base_or c v) u}"
        by simp_all
      ultimately show ?thesis by blast
    next
      case (outside href t)
      with Cons.IH show ?thesis by blast
    qed
  qed
  from Suc.prems show ?case
  proof (cases rule: crawl_Suc_cases)
    case seen
    then show ?thesis by auto
  next
    case (failed e)
    then show ?thesis by (auto simp: print_def log_request_def visited_add_def)
  next
    case (fetched pg st3 r)
    from loop [OF fetched(3)]
    have "visited st3 \<subseteq> visited st \<union> {url} \<union> {u. prefix (base_or b url) u}"
      and "set (requests st3) \<subseteq> set (requests st) \<union> {url} \<union> {u. prefix (base_or b url) u}"
      by (auto simp: index_set_def log_request_def visited_add_def)
    with fetched(4) show ?thesis by (cases r) (simp_all add: print_def)
  qed
qed

text \<open>
  Claim C2, amended. Take a call of \<open>crawl\<close> that fetches its page, and a non-empty link of
  that page which the loop reaches, that is, \<open>urljoin\<close> raised on none of the links before
  it (a raise ends the loop and is reported as an error for the current URL). The link is
  resolved against the scope string \<open>base_url or url\<close>, and the resolved URL is crawled
  exactly when the scope string is a literal prefix of it: after the call it is in
  \<open>visited\<close> if and only if it has that prefix, or is the URL of the call, or was visited
  before. The test is a comparison of strings, so \<open>https://example.com.evil.com\<close> is in
  the scope \<open>https://example.com\<close>. No URL is requested during the call other than its own
  URL and URLs that have the scope string as a prefix.
\<close>

theorem crawl_scope:
  assumes "crawl (Suc n) W st url base_url = Some st'"
      and "url \<notin> visited st" and "get W url = Inr pg"
      and "page_hrefs pg = pre @ Some href # post"
      and "list_all (resolvable W (base_or base_url url)) pre"
      and "href \<noteq> []" and "urljoin W (base_or base_url url) href = Inr t"
  shows "(t \<in> visited st' \<longleftrightarrow> prefix (base_or base_url url) t \<or> t = url \<or> t \<in> visited st) \<and>
         set (requests st') \<subseteq>
           set (requests st) \<union> {url} \<union> {u. prefix (base_or base_url url) u}"
proof -
  from crawl_in_scope [OF assms(1)]
  have vis: "visited st' \<subseteq> visited st \<union> {url} \<union> {u. prefix (base_or base_url url) u}"
    and req: "set (requests st') \<subseteq>
           set (requests st) \<union> {url} \<union> {u. prefix (base_or base_url url) u}"
    by simp_all
  have "t \<in> visited st'" if "prefix (base_or base_url url) t"
    using assms(1)
  proof (cases rule: crawl_Suc_cases)
    case seen
    with assms(2) show ?thesis by simp
  next
    case (failed e)
    with assms(3) show ?thesis by simp
  next
    case (fetched pg' st3 r)
    with assms(3,4) have "crawl_links n W
        (index_set url (page_text pg) (log_request url (visited_add url st)))
        url base_url (pre @ Some href # post) = Some (st3, r)"
      by simp
    moreover from assms(5) have "\<forall>l \<in> set pre. resolvable W (base_or base_url url) l"
      by (simp add: list_all_iff)
    ultimately have "t \<in> visited st3"
      using assms(6,7) that by (blast intro: crawl_links_reaches)
    with fetched(4) show ?thesis by (cases r) (simp_all add: print_def)
  qed
  moreover from assms(1) have "url \<in> visited st'" by (rule crawl_marks)
  moreover from assms(1) have "visited st \<subseteq> visited st'" by (rule crawl_visited_mono)
  ultimately have "t \<in> visited st' \<longleftrightarrow> prefix (base_or base_url url) t \<or> t = url \<or> t \<in> visited st"
    using vis by blast
  with req show ?thesis by blast
qed

theorem crawl_scope_witness:
  "crawl (Suc 3) site init ''https://example.com'' None = Some site_crawled \<and>
   ''https://example.com'' \<notin> visited init \<and>
   get site ''https://example.com'' =
     Inr \<lparr>page_text = ''Welcome!'',
          page_hrefs = [Some ''/about'', None, Some [], Some ''https://www.external.com'',
                        Some ''https://example.com.evil.com'', Some ''/team'']\<rparr> \<and>
   list_all (resolvable site (base_or None ''https://example.com''))
     [Some ''/about'', None, Some [], Some ''https://www.external.com''] \<and>
   urljoin site (base_or None ''https://example.com'') ''https://example.com.evil.com''
     = Inr ''https://example.com.evil.com'' \<and>
   prefix (base_or None ''https://example.com'') ''https://example.com.evil.com'' \<and>
   ''https://example.com.evil.com'' \<in> visited site_crawled \<and>
   urljoin site (base_or None ''https://example.com'') ''https://www.external.com''
     = Inr ''https://www.external.com'' \<and>
   \<not> prefix (base_or None ''https://example.com'') ''https://www.external.com'' \<and>
   ''https://www.external.com'' \<notin> visited site_crawled \<and>
   set (requests site_crawled) \<subseteq>
     set (requests init) \<union> {''https://example.com''}
       \<union> {u. prefix (base_or None ''https://example.com'') u}"
proof -
  let ?pg = "\<lparr>page_text = ''Welcome!'',
          page_hrefs = [Some ''/about'', None, Some [], Some ''https://www.external.com'',
                        Some ''https://example.com.evil.com'', Some ''/team'']\<rparr>"
  have run: "crawl (Suc 3) site init ''https://example.com'' None = Some site_crawled"
    using site_run by (simp add: numeral_eq_Suc del: crawl.simps)
  have unseen: "''https://example.com'' \<notin> visited init"
    by (simp add: init_def)
  have pg: "get site ''https://example.com'' = Inr ?pg"
    by (simp add: site_def)
  have split1: "page_hrefs ?pg =
      [Some ''/about'', None, Some [], Some ''https://www.external.com'']
        @ Some ''https://example.com.evil.com'' # [Some ''/team'']"
    by simp
  have pre1: "list_all (resolvable site (base_or None ''https://example.com''))
      [Some ''/about'', None, Some [], Some ''https://www.external.com'']"
    by (simp add: resolvable_def site_def example_urljoin_def base_or_def)
  have join1: "urljoin site (base_or None ''https://example.com'') ''https://example.com.evil.com''
      = Inr ''https://example.com.evil.com''"
    by (simp add: site_def example_urljoin_def)
  have in1: "prefix (base_or None ''https://example.com'') ''https://example.com.evil.com''"
    by (simp add: base_or_def)
  have split2: "page_hrefs ?pg =
      [Some ''/about'', None, Some []]
        @ Some ''https://www.external.com''
        # [Some ''https://example.com.evil.com'', Some ''/team'']"
    by simp
  have pre2: "list_all (resolvable site (base_or None ''https://example.com''))
      [Some ''/about'', None, Some []]"
    by (simp add: resolvable_def site_def example_urljoin_def base_or_def)
  have join2: "urljoin site (base_or None ''https://example.com'') ''https://www.external.com''
      = Inr ''https://www.external.com''"
    by (simp add: site_def example_urljoin_def)
  have out2: "\<not> prefix (base_or None ''https://example.com'') ''https://www.external.com''"
    by (simp add: base_or_def)
  have new2: "''https://www.external.com'' \<noteq> ''https://example.com''"
    and old2: "''https://www.external.com'' \<notin> visited init"
    by (simp_all add: init_def)
  from crawl_scope [OF run unseen pg split1 pre1 _ join1] in1
  have a: "''https://example.com.evil.com'' \<in> visited site_crawled"
    and c: "set (requests site_crawled) \<subseteq>
     set (requests init) \<union> {''https://example.com''}
       \<union> {u. prefix (base_or None ''https://example.com'') u}"
    by simp_all
  from crawl_scope [OF run unseen pg split2 pre2 _ join2] out2 new2 old2
  have b: "''https://www.external.com'' \<notin> visited site_crawled"
    by simp
  from run unseen pg pre1 join1 in1 a join2 out2 b c show ?thesis by blast
qed

text \<open>
  The claim as it was written speaks of every link of the page. On the page of \<open>badlink\<close>
  the link \<open>/about\<close> resolves to a URL inside the scope, yet it is never crawled: the link
  before it makes \<open>urljoin\<close> raise, which ends the loop.
\<close>

theorem crawl_scope_counterexample:
  "crawl (Suc 1) badlink init ''https://example.com'' None = Some badlink_crawled \<and>
   ''https://example.com'' \<notin> visited init \<and>
   get badlink ''https://example.com'' =
     Inr \<lparr>page_text = ''Welcome!'', page_hrefs = [Some ''http://['', Some ''/about'']\<rparr> \<and>
   urljoin badlink (base_or None ''https://example.com'') ''/about''
     = Inr ''https://example.com/about'' \<and>
   prefix (base_or None ''https://example.com'') ''https://example.com/about'' \<and>
   ''https://example.com/about'' \<notin> visited badlink_crawled \<and>
   ''https://example.com/about'' \<notin> set (requests badlink_crawled)"
proof -
  have "crawl (Suc 1) badlink init ''https://example.com'' None = Some badlink_crawled"
    using badlink_run by (simp add: numeral_eq_Suc del: crawl.simps)
  moreover have "''https://example.com'' \<notin> visited init"
    by (simp add: init_def)
  moreover have "get badlink ''https://example.com'' =
     Inr \<lparr>page_text = ''Welcome!'', page_hrefs = [Some ''http://['', Some ''/about'']\<rparr>"
    by (simp add: badlink_def)
  moreover have "urljoin badlink (base_or None ''https://example.com'') ''/about''
     = Inr ''https://example.com/about''"
    by (simp add: badlink_def example_urljoin_def base_or_def)
  moreover have "prefix (base_or None ''https://example.com'') ''https://example.com/about''"
    by (simp add: base_or_def)
  moreover have "''https://example.com/about'' \<notin> visited badlink_crawled"
    and "''https://example.com/about'' \<notin> set (requests badlink_crawled)"
    by (simp_all add: badlink_crawled_def)
  ultimately show ?thesis by blast
qed

end
